theory Spec2Isabelle
  imports Main "HOL-Library.AList"
begin

section \<open>Go strings: the library calls of system/utils.go\<close>

text \<open>
  A Go string is a sequence of bytes; \<^typ>\<open>string\<close> is a list of 8-bit characters.
  Every separator the program passes to \<open>strings.Split\<close> and \<open>strings.SplitN\<close> is a
  one-byte literal (\<open>" "\<close>, \<open>"\n"\<close>, \<open>"="\<close>), so the separator is a \<^typ>\<open>char\<close>.
\<close>

definition LF :: char where
  "LF = CHR 0x0A"

definition CR :: char where
  "CR = CHR 0x0D"

definition NUL :: char where
  "NUL = CHR 0x00"

definition SP :: char where
  "SP = CHR '' ''"

definition EQ :: char where
  "EQ = CHR ''=''"

text \<open>\<open>strings.IndexByte\<close>: the index of the first occurrence, \<open>None\<close> for Go's \<open>-1\<close>.\<close>

fun IndexByte :: "string \<Rightarrow> char \<Rightarrow> nat option" where
  "IndexByte [] c = None"
| "IndexByte (x # xs) c = (if x = c then Some 0 else map_option Suc (IndexByte xs c))"

text \<open>\<open>strings.Count\<close> for a one-byte separator.\<close>

definition Count :: "string \<Rightarrow> char \<Rightarrow> nat" where
  "Count s sep = length (filter (\<lambda>x. x = sep) s)"

text \<open>
  The loop of \<open>strings.genSplit\<close>, with \<open>k\<close> the number of cuts still allowed
  (Go's \<open>n - 1 - i\<close>): cut at the next separator while one is found and a cut is left,
  then append the remainder.
\<close>

fun genSplit :: "string \<Rightarrow> char \<Rightarrow> nat \<Rightarrow> string list" where
  "genSplit s sep 0 = [s]"
| "genSplit s sep (Suc k) =
     (case IndexByte s sep of
        None \<Rightarrow> [s]
      | Some m \<Rightarrow> take m s # genSplit (drop (Suc m) s) sep k)"

text \<open>\<open>strings.Split(s, sep)\<close> is \<open>genSplit(s, sep, 0, -1)\<close>: \<open>n = Count(s, sep) + 1\<close> pieces.\<close>

definition Split :: "string \<Rightarrow> char \<Rightarrow> string list" where
  "Split s sep = genSplit s sep (Count s sep)"

text \<open>
  \<open>strings.SplitN(s, sep, n)\<close>: no piece for \<open>n = 0\<close>, all pieces for \<open>n < 0\<close>, otherwise at
  most \<open>n\<close> pieces (and at most \<open>len(s) + 1\<close>), the last one being the unsplit remainder.
\<close>

definition SplitN :: "string \<Rightarrow> char \<Rightarrow> int \<Rightarrow> string list" where
  "SplitN s sep n =
     (if n = 0 then []
      else if n < 0 then genSplit s sep (Count s sep)
      else genSplit s sep (nat (min n (int (length s) + 1)) - 1))"

text \<open>\<open>strings.Join\<close> with a one-byte separator (used to state what \<open>Split\<close> keeps).\<close>

fun Join :: "string list \<Rightarrow> char \<Rightarrow> string" where
  "Join [] sep = []"
| "Join [p] sep = p"
| "Join (p # q # ps) sep = p @ sep # Join (q # ps) sep"

section \<open>Errors, commands and the process\<close>

text \<open>
  An error value is either one made by \<open>errors.New\<close> or one returned by \<open>os/exec\<close>,
  \<open>bufio\<close> or \<open>syscall\<close>; \<open>Error\<close> is its message.
\<close>

datatype error =
    ErrorsNew string
  | ExecError string
  | ErrTooLong
  | EINVAL

fun Error :: "error \<Rightarrow> string" where
  "Error (ErrorsNew m) = m"
| "Error (ExecError m) = m"
| "Error ErrTooLong = ''bufio.Scanner: token too long''"
| "Error EINVAL = ''invalid argument''"

text \<open>The result of a Go function that can panic.\<close>

datatype 'a outcome = Panic | Returns 'a

text \<open>\<open>exec.Command(name, args...)\<close> with \<open>cmd.Dir\<close>.\<close>

record Cmd =
  Name :: string
  Args :: "string list"
  Dir :: string

definition Command :: "string \<Rightarrow> string list \<Rightarrow> Cmd" where
  "Command name args = \<lparr>Name = name, Args = args, Dir = []\<rparr>"

text \<open>
  What a child process does is outside the program: \<open>cmd.Run()\<close> is a parameter, a
  function from the command and the state of the world to the error it returns
  (\<open>None\<close> is \<open>nil\<close>) and the new state of the world. \<open>exec.Command\<close> with the empty
  name leaves \<open>cmd.Path\<close> empty, and \<open>cmd.Run()\<close> then fails before any child is
  started. The process state also records every call of \<open>cmd.Run()\<close>, with its result, in
  order.
\<close>

type_synonym 'w runner = "Cmd \<Rightarrow> 'w \<Rightarrow> error option \<times> 'w"

record 'w process =
  world :: 'w
  spawned :: "(Cmd \<times> error option) list"

definition Run :: "'w runner \<Rightarrow> Cmd \<Rightarrow> 'w process \<Rightarrow> error option \<times> 'w process" where
  "Run run cmd st =
     (let (err, w) = (if Name cmd = [] then (Some (ExecError ''exec: no command''), world st)
                      else run cmd (world st))
      in (err, st\<lparr>world := w, spawned := spawned st @ [(cmd, err)]\<rparr>))"

section \<open>ExecuteCommands\<close>

text \<open>
  The body of the \<open>for\<close> loop up to \<open>cmd.Dir = dir\<close>: \<open>parts[0]\<close> panics on an empty
  slice, \<open>args\<close> is \<open>parts[1:]\<close> when there is more than one part.
\<close>

definition buildCmd :: "string \<Rightarrow> string \<Rightarrow> Cmd outcome" where
  "buildCmd command dir =
     (let parts = Split command SP
      in case parts of
           [] \<Rightarrow> Panic
         | cmdName # _ \<Rightarrow>
             (let args = (if length parts > 1 then tl parts else [])
              in Returns ((Command cmdName args)\<lparr>Dir := dir\<rparr>)))"

fun ExecuteCommands_loop ::
  "'w runner \<Rightarrow> string list \<Rightarrow> string \<Rightarrow> 'w process \<Rightarrow> error option outcome \<times> 'w process" where
  "ExecuteCommands_loop run [] dir st = (Returns None, st)"
| "ExecuteCommands_loop run (command # rest) dir st =
     (case buildCmd command dir of
        Panic \<Rightarrow> (Panic, st)
      | Returns cmd \<Rightarrow>
          (case Run run cmd st of
             (Some err, st') \<Rightarrow> (Returns (Some err), st')
           | (None, st') \<Rightarrow> ExecuteCommands_loop run rest dir st'))"

definition ExecuteCommands ::
  "'w runner \<Rightarrow> string list \<Rightarrow> string \<Rightarrow> 'w process \<Rightarrow> error option outcome \<times> 'w process" where
  "ExecuteCommands run commands dir st =
     (if length commands = 0 then (Returns None, st)
      else ExecuteCommands_loop run commands dir st)"

section \<open>The line scanner\<close>

text \<open>
  \<open>bufio.NewScanner(&out)\<close> with the default split function \<open>ScanLines\<close> and the default
  buffer limit \<open>MaxScanTokenSize = 64 * 1024\<close>. \<open>Scanner_Scan data\<close> is the list of the
  tokens that the successive calls of \<open>scanner.Scan()\<close> deliver as \<open>scanner.Text()\<close>, and
  what \<open>scanner.Err()\<close> is once \<open>Scan\<close> has returned false. A line ends at a newline
  or at the end of the data, a final empty line is no token, one trailing carriage return
  is dropped from each token, and a line whose newline is not found within the first
  \<open>MaxScanTokenSize\<close> bytes stops the scan with \<open>ErrTooLong\<close>. Reading from a
  \<open>bytes.Buffer\<close> gives no other error.
\<close>

definition MaxScanTokenSize :: nat where
  "MaxScanTokenSize = 64 * 1024"

definition dropCR :: "string \<Rightarrow> string" where
  "dropCR data = (if data \<noteq> [] \<and> last data = CR then butlast data else data)"

function Scanner_Scan :: "string \<Rightarrow> string list \<times> error option" where
  "Scanner_Scan data =
     (if data = [] then ([], None)
      else case IndexByte data LF of
             Some i \<Rightarrow>
               if MaxScanTokenSize \<le> i then ([], Some ErrTooLong)
               else (let (tokens, err) = Scanner_Scan (drop (Suc i) data)
                     in (dropCR (take i data) # tokens, err))
           | None \<Rightarrow>
               if MaxScanTokenSize \<le> length data then ([], Some ErrTooLong)
               else ([dropCR data], None))"
  by pat_completeness auto
termination
  by (relation "measure length") auto

declare Scanner_Scan.simps [simp del]

section \<open>The environment and the sourcing functions\<close>

text \<open>
  The process-wide environment is a table from names to values. \<open>os.Setenv\<close> is
  \<open>syscall.Setenv\<close>: it refuses with \<open>EINVAL\<close> an empty key, a key holding \<open>=\<close> or a
  NUL byte and a value holding a NUL byte, and otherwise stores the value under the key.
\<close>

type_synonym environ = "string \<rightharpoonup> string"

definition Setenv :: "string \<Rightarrow> string \<Rightarrow> environ \<Rightarrow> error option \<times> environ" where
  "Setenv key value osenv =
     (if key = [] \<or> EQ \<in> set key \<or> NUL \<in> set key \<or> NUL \<in> set value
      then (Some EINVAL, osenv)
      else (None, osenv(key \<mapsto> value)))"

text \<open>
  The map \<open>env\<close> of the sourcing functions is an association list with distinct keys;
  \<open>env[k] = v\<close> is \<^const>\<open>AList.update\<close>.
\<close>

type_synonym snapshot = "(string \<times> string) list"

text \<open>The body of the parsing loops: \<open>SplitN(line, "=", 2)\<close> and the store when it has two parts.\<close>

definition putLine :: "string \<Rightarrow> snapshot \<Rightarrow> snapshot" where
  "putLine line env =
     (let parts = SplitN line EQ 2
      in if length parts = 2 then AList.update (parts ! 0) (parts ! 1) env else env)"

text \<open>Lines 93 to 100 of ShellSourceUnix: the lines are \<open>strings.Split(string(output), "\n")\<close>.\<close>

definition parseSplit :: "string \<Rightarrow> snapshot" where
  "parseSplit output = fold putLine (Split output LF) []"

text \<open>
  Lines 132 to 140 of ShellSourceBatch and 171 to 179 of ShellSourcePowerShell: the lines
  are the tokens of the scanner; \<open>scanner.Err()\<close> is never read.
\<close>

definition parseScanner :: "string \<Rightarrow> snapshot" where
  "parseScanner out = fold putLine (fst (Scanner_Scan out)) []"

text \<open>
  \<open>for key, value := range env { os.Setenv(key, value) }\<close>: the error of \<open>os.Setenv\<close> is
  discarded. Go ranges over a map in no fixed order; the list order stands for one of
  them (\<open>setAll_order\<close> below: every order gives the same environment).
\<close>

definition setAll :: "snapshot \<Rightarrow> environ \<Rightarrow> environ" where
  "setAll env osenv = fold (\<lambda>(key, value) e. snd (Setenv key value e)) env osenv"

text \<open>
  Running the child and capturing its standard output (\<open>cmd.Output()\<close>, or \<open>cmd.Run()\<close>
  with \<open>cmd.Stdout = &out\<close>) is a parameter: the captured bytes and the error.
\<close>

type_synonym capture = "Cmd \<Rightarrow> string \<times> error option"

definition unixCmd :: "string \<Rightarrow> Cmd" where
  "unixCmd script = Command ''sh'' [''-c'', ''. '' @ script @ '' && env'']"

definition ShellSourceUnix :: "capture \<Rightarrow> string \<Rightarrow> environ \<Rightarrow> error option \<times> environ" where
  "ShellSourceUnix capture script osenv =
     (let cmd = unixCmd script;
          (output, err) = capture cmd
      in case err of
           Some e \<Rightarrow> (Some (ErrorsNew (''Failed to execute shell script: '' @ Error e)), osenv)
         | None \<Rightarrow> (None, setAll (parseSplit output) osenv))"

definition batchCmd :: "string \<Rightarrow> Cmd" where
  "batchCmd script = Command ''cmd.exe'' [''/C'', script @ '' && set'']"

definition ShellSourceBatch :: "capture \<Rightarrow> string \<Rightarrow> environ \<Rightarrow> error option \<times> environ" where
  "ShellSourceBatch capture script osenv =
     (let cmd = batchCmd script;
          (out, err) = capture cmd
      in case err of
           Some e \<Rightarrow> (Some (ErrorsNew (''Failed to execute .bat file: '' @ Error e)), osenv)
         | None \<Rightarrow> (None, setAll (parseScanner out) osenv))"

definition powerShellCmd :: "string \<Rightarrow> Cmd" where
  "powerShellCmd script =
     Command ''powershell.exe''
       [''-ExecutionPolicy'', ''Bypass'', ''-Command'',
        ''& {'' @ script @
        ''; Get-ChildItem Env: | ForEach-Object { $_.Name + '' @ [CHR 0x27] @ ''='' @
        [CHR 0x27] @ '' + $_.Value }}'']"

definition ShellSourcePowerShell :: "capture \<Rightarrow> string \<Rightarrow> environ \<Rightarrow> error option \<times> environ" where
  "ShellSourcePowerShell capture script osenv =
     (let cmd = powerShellCmd script;
          (out, err) = capture cmd
      in case err of
           Some e \<Rightarrow> (Some (ErrorsNew (''Failed to execute .ps1 file: '' @ Error e)), osenv)
         | None \<Rightarrow> (None, setAll (parseScanner out) osenv))"

section \<open>Auxiliary definitions for the statements\<close>

text \<open>The command that the loop body of ExecuteCommands builds (see \<open>buildCmd_Returns\<close>).\<close>

definition cmdOf :: "string \<Rightarrow> string \<Rightarrow> Cmd" where
  "cmdOf command dir = \<lparr>Name = hd (Split command SP), Args = tl (Split command SP), Dir = dir\<rparr>"

text \<open>A runner for concrete runs: \<open>false\<close> fails, everything else succeeds; the world counts the children.\<close>

definition demo_run :: "nat runner" where
  "demo_run cmd w = (if Name cmd = ''false'' then Some (ExecError ''exit status 1'') else None, Suc w)"

text \<open>
  What the scanner delivers, read off the list of the lines of the data (the pieces
  between its newlines); \<open>Scanner_Scan_Split\<close> shows that this is \<^const>\<open>Scanner_Scan\<close>.
\<close>

fun scanOf :: "string list \<Rightarrow> string list \<times> error option" where
  "scanOf [] = ([], None)"
| "scanOf [l] =
     (if l = [] then ([], None)
      else if MaxScanTokenSize \<le> length l then ([], Some ErrTooLong)
      else ([dropCR l], None))"
| "scanOf (l # ls) =
     (if MaxScanTokenSize \<le> length l then ([], Some ErrTooLong)
      else (dropCR l # fst (scanOf ls), snd (scanOf ls)))"

text \<open>A line of \<open>MaxScanTokenSize\<close> bytes, without \<open>=\<close> and without a newline.\<close>

definition long_line :: string where
  "long_line = replicate MaxScanTokenSize (CHR ''x'')"

text \<open>A dump with a line of \<open>MaxScanTokenSize\<close> bytes between two lines of the key \<open>K\<close>.\<close>

definition long_dump :: string where
  "long_dump = ''K=1'' @ [LF] @ long_line @ [LF] @ ''K=2''"

text \<open>Children for concrete runs: one that fails, and one that prints a given dump.\<close>

definition failing :: capture where
  "failing cmd = ([], Some (ExecError ''exit status 1''))"

definition printing :: "string \<Rightarrow> capture" where
  "printing dump cmd = (dump, None)"

section \<open>Splitting\<close>

lemma IndexByte_None_iff: "IndexByte s c = None \<longleftrightarrow> c \<notin> set s"
  by (induction s) auto

lemma IndexByte_Some_D:
  "IndexByte s c = Some m \<Longrightarrow> m < length s \<and> s ! m = c \<and> c \<notin> set (take m s)"
proof (induction s arbitrary: m)
  case Nil
  then show ?case by simp
next
  case (Cons x xs)
  then show ?case by (cases m) (auto split: if_splits)
qed

lemma genSplit_not_Nil: "genSplit s sep k \<noteq> []"
  by (cases k) (auto split: option.splits)

lemma genSplit_Cons_other:
  "c \<noteq> sep \<Longrightarrow> genSplit (c # cs) sep k = (c # hd (genSplit cs sep k)) # tl (genSplit cs sep k)"
  by (cases k) (auto split: option.splits)

lemma Split_Nil: "Split [] sep = [[]]"
  by (simp add: Split_def Count_def)

lemma Split_Cons:
  "Split (c # cs) sep =
     (if c = sep then [] # Split cs sep else (c # hd (Split cs sep)) # tl (Split cs sep))"
  by (simp add: Split_def Count_def genSplit_Cons_other)

lemma Split_not_Nil: "Split s sep \<noteq> []"
  by (simp add: Split_def genSplit_not_Nil)

lemma Join_Cons_head: "Join ((c # p) # ps) sep = c # Join (p # ps) sep"
  by (cases ps) auto

lemma Join_Split: "Join (Split s sep) sep = s"
proof (induction s)
  case Nil
  then show ?case by (simp add: Split_Nil)
next
  case (Cons c cs)
  obtain p ps where ps: "Split cs sep = p # ps"
    using Split_not_Nil by (cases "Split cs sep") auto
  with Cons show ?case
    by (auto simp: Split_Cons Join_Cons_head)
qed

lemma Split_no_sep: "p \<in> set (Split s sep) \<Longrightarrow> sep \<notin> set p"
proof (induction s arbitrary: p)
  case Nil
  then show ?case by (simp add: Split_Nil)
next
  case (Cons c cs)
  obtain q qs where qs: "Split cs sep = q # qs"
    using Split_not_Nil by (cases "Split cs sep") auto
  with Cons show ?case
    by (auto simp: Split_Cons split: if_splits)
qed

lemma length_Split: "length (Split s sep) = Suc (Count s sep)"
proof (induction s)
  case Nil
  then show ?case by (simp add: Split_Nil Count_def)
next
  case (Cons c cs)
  obtain q qs where qs: "Split cs sep = q # qs"
    using Split_not_Nil by (cases "Split cs sep") auto
  with Cons show ?case
    by (auto simp: Split_Cons Count_def)
qed

lemma Split_inj: "Split s sep = Split t sep \<Longrightarrow> s = t"
  by (metis Join_Split)

lemma buildCmd_Returns: "buildCmd command dir = Returns (cmdOf command dir)"
proof -
  obtain p ps where ps: "Split command SP = p # ps"
    using Split_not_Nil by (cases "Split command SP") auto
  then show ?thesis
    by (cases ps) (simp_all add: buildCmd_def cmdOf_def Command_def)
qed

lemma cmdOf_inj: "cmdOf c dir = cmdOf c' dir \<Longrightarrow> c = c'"
proof -
  assume a: "cmdOf c dir = cmdOf c' dir"
  have "Split c SP = hd (Split c SP) # tl (Split c SP)"
    using Split_not_Nil by simp
  moreover have "Split c' SP = hd (Split c' SP) # tl (Split c' SP)"
    using Split_not_Nil by simp
  ultimately have "Split c SP = Split c' SP"
    using a by (simp add: cmdOf_def)
  then show ?thesis by (rule Split_inj)
qed

lemma loop_trace:
  "ExecuteCommands_loop run commands dir st = (r, st') \<Longrightarrow>
   (case r of
      Panic \<Rightarrow> False
    | Returns None \<Rightarrow>
        spawned st' = spawned st @ map (\<lambda>c. (cmdOf c dir, None)) commands
    | Returns (Some e) \<Rightarrow>
        (\<exists>n < length commands.
           spawned st' = spawned st @ map (\<lambda>c. (cmdOf c dir, None)) (take n commands)
                           @ [(cmdOf (commands ! n) dir, Some e)]))"
proof (induction commands arbitrary: st)
  case Nil
  then show ?case by auto
next
  case (Cons c cs)
  show ?case
  proof (cases "Run run (cmdOf c dir) st")
    case (Pair err st1)
    have sp: "spawned st1 = spawned st @ [(cmdOf c dir, err)]"
      using Pair by (auto simp: Run_def Let_def split: prod.splits if_splits)
    show ?thesis
    proof (cases err)
      case None
      with Pair Cons.prems have "ExecuteCommands_loop run cs dir st1 = (r, st')"
        by (simp add: buildCmd_Returns)
      from Cons.IH[OF this] sp None show ?thesis
        apply (cases r)
         apply simp
        subgoal for x
          apply (cases x)
           apply simp
          apply clarsimp
          subgoal for e n
            by (rule exI[of _ "Suc n"]) simp
          done
        done
    next
      case (Some e)
      with Pair Cons.prems have "r = Returns (Some e)" "st' = st1"
        by (simp_all add: buildCmd_Returns)
      with sp Some show ?thesis
        by (auto intro!: exI[of _ 0])
    qed
  qed
qed

section \<open>ExecuteCommands: what is run, in which order\<close>

lemma ExecuteCommands_trace:
  "ExecuteCommands run commands dir st = (r, st') \<Longrightarrow>
   (case r of
      Panic \<Rightarrow> False
    | Returns None \<Rightarrow>
        spawned st' = spawned st @ map (\<lambda>c. (cmdOf c dir, None)) commands
    | Returns (Some e) \<Rightarrow>
        (\<exists>n < length commands.
           spawned st' = spawned st @ map (\<lambda>c. (cmdOf c dir, None)) (take n commands)
                           @ [(cmdOf (commands ! n) dir, Some e)]))"
proof (cases "commands = []")
  case True
  assume "ExecuteCommands run commands dir st = (r, st')"
  with True show ?thesis by (auto simp: ExecuteCommands_def)
next
  case False
  assume "ExecuteCommands run commands dir st = (r, st')"
  with False have "ExecuteCommands_loop run commands dir st = (r, st')"
    by (simp add: ExecuteCommands_def)
  then show ?thesis by (rule loop_trace)
qed

lemma count_list_map_inj:
  "inj f \<Longrightarrow> count_list (map f xs) (f x) = count_list xs x"
  by (induction xs) (auto dest: injD)

lemma inj_cmdOf: "inj (\<lambda>c. cmdOf c dir)"
  by (rule injI) (rule cmdOf_inj)

text \<open>
  Claim C7. ExecuteCommands runs the command list as it is given, in order and without
  removing duplicates: when it returns nil, the calls of \<open>cmd.Run()\<close> it has added to
  the record are the commands built from the list, one per element and in list order, and
  the command built from a string that occurs k times in the list has been run k times.
\<close>

theorem ExecuteCommands_verbatim:
  assumes "ExecuteCommands run commands dir st = (Returns None, st')"
  shows "\<exists>cmds. map (\<lambda>c. buildCmd c dir) commands = map Returns cmds
           \<and> spawned st' = spawned st @ map (\<lambda>cmd. (cmd, None)) cmds
           \<and> (\<forall>c cmd. buildCmd c dir = Returns cmd
                    \<longrightarrow> count_list cmds cmd = count_list commands c)"
proof -
  let ?cmds = "map (\<lambda>c. cmdOf c dir) commands"
  have 1: "map (\<lambda>c. buildCmd c dir) commands = map Returns ?cmds"
    by (simp add: buildCmd_Returns)
  have 2: "spawned st' = spawned st @ map (\<lambda>cmd. (cmd, None)) ?cmds"
    using ExecuteCommands_trace[OF assms] by (simp add: comp_def)
  have 3: "count_list ?cmds cmd = count_list commands c"
    if "buildCmd c dir = Returns cmd" for c cmd
  proof -
    from that have "cmd = cmdOf c dir" by (simp add: buildCmd_Returns)
    then show ?thesis
      using count_list_map_inj[OF inj_cmdOf, of dir commands c] by simp
  qed
  from 1 2 3 show ?thesis by blast
qed

lemma demo_Split: "Split ''echo a'' SP = [''echo'', ''a'']" "Split ''false'' SP = [''false'']"
  "Split ''true'' SP = [''true'']"
  by (simp_all add: Split_def Count_def SP_def)

theorem ExecuteCommands_verbatim_witness:
  "ExecuteCommands demo_run [''echo a'', ''echo a''] ''/tmp'' \<lparr>world = 0, spawned = []\<rparr>
     = (Returns None,
        \<lparr>world = 2,
         spawned = [(\<lparr>Name = ''echo'', Args = [''a''], Dir = ''/tmp''\<rparr>, None),
                    (\<lparr>Name = ''echo'', Args = [''a''], Dir = ''/tmp''\<rparr>, None)]\<rparr>)
   \<and> (\<exists>cmds. map (\<lambda>c. buildCmd c ''/tmp'') [''echo a'', ''echo a''] = map Returns cmds
         \<and> count_list cmds \<lparr>Name = ''echo'', Args = [''a''], Dir = ''/tmp''\<rparr> = 2)"
proof -
  have b: "buildCmd ''echo a'' ''/tmp'' = Returns \<lparr>Name = ''echo'', Args = [''a''], Dir = ''/tmp''\<rparr>"
    by (simp add: buildCmd_def demo_Split Command_def)
  have h: "ExecuteCommands demo_run [''echo a'', ''echo a''] ''/tmp'' \<lparr>world = 0, spawned = []\<rparr>
     = (Returns None,
        \<lparr>world = 2,
         spawned = [(\<lparr>Name = ''echo'', Args = [''a''], Dir = ''/tmp''\<rparr>, None),
                    (\<lparr>Name = ''echo'', Args = [''a''], Dir = ''/tmp''\<rparr>, None)]\<rparr>)"
    by (simp add: ExecuteCommands_def b Run_def demo_run_def)
  from ExecuteCommands_verbatim[OF h] obtain cmds where
    m: "map (\<lambda>c. buildCmd c ''/tmp'') [''echo a'', ''echo a''] = map Returns cmds" and
    c: "\<forall>c cmd. buildCmd c ''/tmp'' = Returns cmd
              \<longrightarrow> count_list cmds cmd = count_list [''echo a'', ''echo a''] c"
    by blast
  from c[rule_format, OF b]
  have "count_list cmds \<lparr>Name = ''echo'', Args = [''a''], Dir = ''/tmp''\<rparr> = 2"
    by simp
  with h m show ?thesis by blast
qed

lemma loop_append:
  "ExecuteCommands_loop run (xs @ ys) dir st =
     (case ExecuteCommands_loop run xs dir st of
        (Returns None, st1) \<Rightarrow> ExecuteCommands_loop run ys dir st1
      | other \<Rightarrow> other)"
proof (induction xs arbitrary: st)
  case Nil
  then show ?case by simp
next
  case (Cons x xs)
  show ?case
    by (cases "Run run (cmdOf x dir) st")
       (auto simp: buildCmd_Returns Cons.IH split: option.splits outcome.splits prod.splits)
qed

lemma loop_eq_ExecuteCommands:
  "ExecuteCommands_loop run commands dir st = ExecuteCommands run commands dir st"
  by (cases commands) (simp_all add: ExecuteCommands_def)

lemma Run_named:
  "Name cmd \<noteq> [] \<Longrightarrow>
   Run run cmd s =
     (fst (run cmd (world s)),
      s\<lparr>world := snd (run cmd (world s)),
        spawned := spawned s @ [(cmd, fst (run cmd (world s)))]\<rparr>)"
  by (simp add: Run_def split: prod.splits)

lemma loop_fails_after:
  assumes "ExecuteCommands_loop run pre dir st = (Returns None, st1)"
    and "Run run (cmdOf c dir) st1 = (Some e, st2)"
  shows "ExecuteCommands_loop run (pre @ c # post) dir st = (Returns (Some e), st2)"
  using assms by (simp add: loop_append buildCmd_Returns)

lemma loop_succeeds_after:
  assumes "ExecuteCommands_loop run pre dir st = (Returns None, st1)"
    and "Run run (cmdOf c dir) st1 = (None, st2)"
  shows "ExecuteCommands_loop run (pre @ [c]) dir st = (Returns None, st2)"
  using assms by (simp add: loop_append buildCmd_Returns)

lemma loop_error_first_failure:
  "ExecuteCommands_loop run cs dir st = (Returns (Some e), st') \<Longrightarrow>
   \<exists>pre c post st1. cs = pre @ c # post
      \<and> ExecuteCommands_loop run pre dir st = (Returns None, st1)
      \<and> Run run (cmdOf c dir) st1 = (Some e, st')"
proof (induction cs arbitrary: st)
  case Nil
  then show ?case by simp
next
  case (Cons x xs)
  obtain err sa where r: "Run run (cmdOf x dir) st = (err, sa)"
    by (cases "Run run (cmdOf x dir) st")
  show ?case
  proof (cases err)
    case None
    with Cons.prems r have "ExecuteCommands_loop run xs dir sa = (Returns (Some e), st')"
      by (simp add: buildCmd_Returns)
    from Cons.IH[OF this] obtain pre c post st1 where
      d: "xs = pre @ c # post" "ExecuteCommands_loop run pre dir sa = (Returns None, st1)"
         "Run run (cmdOf c dir) st1 = (Some e, st')"
      by blast
    from d(2) r None have "ExecuteCommands_loop run (x # pre) dir st = (Returns None, st1)"
      by (simp add: buildCmd_Returns)
    with d(1,3) show ?thesis
      by (intro exI[of _ "x # pre"] exI[of _ c] exI[of _ post] exI[of _ st1]) simp
  next
    case (Some e')
    with Cons.prems r have "e' = e" "sa = st'"
      by (simp_all add: buildCmd_Returns)
    with r Some show ?thesis
      by (intro exI[of _ "[]"] exI[of _ x] exI[of _ xs] exI[of _ st]) simp
  qed
qed

lemma loop_nil_every_command:
  assumes "ExecuteCommands_loop run (pre @ c # post) dir st = (Returns None, st')"
  shows "\<exists>st1 st2. ExecuteCommands_loop run pre dir st = (Returns None, st1)
           \<and> Run run (cmdOf c dir) st1 = (None, st2)"
proof -
  obtain r st1 where p: "ExecuteCommands_loop run pre dir st = (r, st1)"
    by (cases "ExecuteCommands_loop run pre dir st")
  from assms p have r: "r = Returns None"
    by (auto simp: loop_append split: outcome.splits option.splits)
  with assms p have "ExecuteCommands_loop run (c # post) dir st1 = (Returns None, st')"
    by (simp add: loop_append)
  then obtain st2 where "Run run (cmdOf c dir) st1 = (None, st2)"
    by (cases "Run run (cmdOf c dir) st1") (auto simp: buildCmd_Returns split: option.splits)
  with p r show ?thesis by blast
qed

lemma demo_buildCmd:
  "buildCmd ''true'' d = Returns \<lparr>Name = ''true'', Args = [], Dir = d\<rparr>"
  "buildCmd ''false'' d = Returns \<lparr>Name = ''false'', Args = [], Dir = d\<rparr>"
  by (simp_all add: buildCmd_def demo_Split Command_def)

text \<open>
  Claim C8. ExecuteCommands runs the commands strictly in list order and stops at the
  first one that fails. In terms of the runner: the empty list returns nil and runs
  nothing; when the commands before \<open>c\<close> have all succeeded and the run of \<open>c\<close> fails with
  \<open>e\<close>, the call returns \<open>e\<close> in the state right after that run, whatever follows \<open>c\<close> in
  the list; when the run of \<open>c\<close> succeeds, the list up to \<open>c\<close> returns nil in the state
  after that run. Conversely, an error returned is the error of a command of the list
  whose predecessors have all succeeded, and nil is returned only when every command of
  the list has been run with success. A run of a named command is the runner applied to
  the world of the moment. The call never panics, and the record of runs is the list up
  to the failing command, in order.
\<close>

theorem ExecuteCommands_stops_at_first_failure:
  "(\<exists>cmds. map (\<lambda>c. buildCmd c dir) commands = map Returns cmds \<and>
     (case ExecuteCommands run commands dir st of
        (Panic, st') \<Rightarrow> False
      | (Returns None, st') \<Rightarrow> spawned st' = spawned st @ map (\<lambda>cmd. (cmd, None)) cmds
      | (Returns (Some e), st') \<Rightarrow>
          (\<exists>n. n < length cmds \<and>
             spawned st' = spawned st @ map (\<lambda>cmd. (cmd, None)) (take n cmds)
                             @ [(cmds ! n, Some e)])))
   \<and> ExecuteCommands run [] dir st = (Returns None, st)
   \<and> (\<forall>pre c post cmd st1 e st2.
         ExecuteCommands run pre dir st = (Returns None, st1)
         \<and> buildCmd c dir = Returns cmd \<and> Run run cmd st1 = (Some e, st2)
         \<longrightarrow> ExecuteCommands run (pre @ c # post) dir st = (Returns (Some e), st2))
   \<and> (\<forall>pre c cmd st1 st2.
         ExecuteCommands run pre dir st = (Returns None, st1)
         \<and> buildCmd c dir = Returns cmd \<and> Run run cmd st1 = (None, st2)
         \<longrightarrow> ExecuteCommands run (pre @ [c]) dir st = (Returns None, st2))
   \<and> (\<forall>e st'. ExecuteCommands run commands dir st = (Returns (Some e), st')
         \<longrightarrow> (\<exists>pre c post cmd st1. commands = pre @ c # post
               \<and> ExecuteCommands run pre dir st = (Returns None, st1)
               \<and> buildCmd c dir = Returns cmd \<and> Run run cmd st1 = (Some e, st')))
   \<and> (\<forall>st' pre c post. ExecuteCommands run commands dir st = (Returns None, st')
         \<and> commands = pre @ c # post
         \<longrightarrow> (\<exists>cmd st1 st2. ExecuteCommands run pre dir st = (Returns None, st1)
               \<and> buildCmd c dir = Returns cmd \<and> Run run cmd st1 = (None, st2)))
   \<and> (\<forall>cmd s. Name cmd \<noteq> [] \<longrightarrow>
         Run run cmd s =
           (fst (run cmd (world s)),
            s\<lparr>world := snd (run cmd (world s)),
              spawned := spawned s @ [(cmd, fst (run cmd (world s)))]\<rparr>))"
proof (intro conjI allI impI)
  let ?cmds = "map (\<lambda>c. cmdOf c dir) commands"
  obtain r st' where res: "ExecuteCommands run commands dir st = (r, st')"
    by (cases "ExecuteCommands run commands dir st")
  have 1: "map (\<lambda>c. buildCmd c dir) commands = map Returns ?cmds"
    by (simp add: buildCmd_Returns)
  have 2: "(case (r, st') of
        (Panic, st') \<Rightarrow> False
      | (Returns None, st') \<Rightarrow> spawned st' = spawned st @ map (\<lambda>cmd. (cmd, None)) ?cmds
      | (Returns (Some e), st') \<Rightarrow>
          (\<exists>n. n < length ?cmds \<and>
             spawned st' = spawned st @ map (\<lambda>cmd. (cmd, None)) (take n ?cmds)
                             @ [(?cmds ! n, Some e)]))"
    using ExecuteCommands_trace[OF res]
    by (auto simp: comp_def take_map split: outcome.splits option.splits)
  show "\<exists>cmds. map (\<lambda>c. buildCmd c dir) commands = map Returns cmds \<and>
     (case ExecuteCommands run commands dir st of
        (Panic, st') \<Rightarrow> False
      | (Returns None, st') \<Rightarrow> spawned st' = spawned st @ map (\<lambda>cmd. (cmd, None)) cmds
      | (Returns (Some e), st') \<Rightarrow>
          (\<exists>n. n < length cmds \<and>
             spawned st' = spawned st @ map (\<lambda>cmd. (cmd, None)) (take n cmds)
                             @ [(cmds ! n, Some e)]))"
    unfolding res by (rule exI[of _ ?cmds], rule conjI, rule 1, rule 2)
next
  show "ExecuteCommands run [] dir st = (Returns None, st)"
    by (simp add: ExecuteCommands_def)
next
  fix pre c post cmd st1 e st2
  assume a: "ExecuteCommands run pre dir st = (Returns None, st1)
         \<and> buildCmd c dir = Returns cmd \<and> Run run cmd st1 = (Some e, st2)"
  then have "cmd = cmdOf c dir" by (simp add: buildCmd_Returns)
  with a show "ExecuteCommands run (pre @ c # post) dir st = (Returns (Some e), st2)"
    using loop_fails_after[of run pre dir st st1 c e st2 post]
    by (simp add: loop_eq_ExecuteCommands)
next
  fix pre c cmd st1 st2
  assume a: "ExecuteCommands run pre dir st = (Returns None, st1)
         \<and> buildCmd c dir = Returns cmd \<and> Run run cmd st1 = (None, st2)"
  then have "cmd = cmdOf c dir" by (simp add: buildCmd_Returns)
  with a show "ExecuteCommands run (pre @ [c]) dir st = (Returns None, st2)"
    using loop_succeeds_after[of run pre dir st st1 c st2]
    by (simp add: loop_eq_ExecuteCommands)
next
  fix e st'
  assume "ExecuteCommands run commands dir st = (Returns (Some e), st')"
  then have "ExecuteCommands_loop run commands dir st = (Returns (Some e), st')"
    by (simp add: loop_eq_ExecuteCommands)
  from loop_error_first_failure[OF this] obtain pre c post st1 where
    "commands = pre @ c # post" "ExecuteCommands_loop run pre dir st = (Returns None, st1)"
    "Run run (cmdOf c dir) st1 = (Some e, st')"
    by blast
  then show "\<exists>pre c post cmd st1. commands = pre @ c # post
               \<and> ExecuteCommands run pre dir st = (Returns None, st1)
               \<and> buildCmd c dir = Returns cmd \<and> Run run cmd st1 = (Some e, st')"
    using buildCmd_Returns[of c dir] by (auto simp: loop_eq_ExecuteCommands)
next
  fix st' pre c post
  assume a: "ExecuteCommands run commands dir st = (Returns None, st')
         \<and> commands = pre @ c # post"
  then have "ExecuteCommands_loop run (pre @ c # post) dir st = (Returns None, st')"
    by (auto simp: loop_eq_ExecuteCommands)
  from loop_nil_every_command[OF this] obtain st1 st2 where
    "ExecuteCommands_loop run pre dir st = (Returns None, st1)"
    "Run run (cmdOf c dir) st1 = (None, st2)"
    by blast
  then show "\<exists>cmd st1 st2. ExecuteCommands run pre dir st = (Returns None, st1)
               \<and> buildCmd c dir = Returns cmd \<and> Run run cmd st1 = (None, st2)"
    using buildCmd_Returns[of c dir] by (auto simp: loop_eq_ExecuteCommands)
next
  fix cmd :: Cmd and s :: "'a process"
  assume "Name cmd \<noteq> []"
  then show "Run run cmd s =
           (fst (run cmd (world s)),
            s\<lparr>world := snd (run cmd (world s)),
              spawned := spawned s @ [(cmd, fst (run cmd (world s)))]\<rparr>)"
    by (rule Run_named)
qed

theorem ExecuteCommands_stops_at_first_failure_witness:
  "ExecuteCommands demo_run [''true''] ''/tmp'' \<lparr>world = 0, spawned = []\<rparr> =
     (Returns None,
      \<lparr>world = 1, spawned = [(\<lparr>Name = ''true'', Args = [], Dir = ''/tmp''\<rparr>, None)]\<rparr>)
   \<and> buildCmd ''false'' ''/tmp'' = Returns \<lparr>Name = ''false'', Args = [], Dir = ''/tmp''\<rparr>
   \<and> demo_run \<lparr>Name = ''false'', Args = [], Dir = ''/tmp''\<rparr> 1 =
        (Some (ExecError ''exit status 1''), 2)
   \<and> ExecuteCommands demo_run [''true'', ''false'', ''true''] ''/tmp''
        \<lparr>world = 0, spawned = []\<rparr> =
       (Returns (Some (ExecError ''exit status 1'')),
        \<lparr>world = 2,
         spawned = [(\<lparr>Name = ''true'', Args = [], Dir = ''/tmp''\<rparr>, None),
                    (\<lparr>Name = ''false'', Args = [], Dir = ''/tmp''\<rparr>,
                     Some (ExecError ''exit status 1''))]\<rparr>)"
proof -
  let ?st = "\<lparr>world = 0::nat, spawned = []\<rparr>"
  let ?st1 = "\<lparr>world = 1::nat, spawned = [(\<lparr>Name = ''true'', Args = [], Dir = ''/tmp''\<rparr>, None)]\<rparr>"
  let ?cmd = "\<lparr>Name = ''false'', Args = [], Dir = ''/tmp''\<rparr>"
  let ?e = "ExecError ''exit status 1''"
  let ?st2 = "\<lparr>world = 2::nat,
         spawned = [(\<lparr>Name = ''true'', Args = [], Dir = ''/tmp''\<rparr>, None), (?cmd, Some ?e)]\<rparr>"
  have p: "ExecuteCommands demo_run [''true''] ''/tmp'' ?st = (Returns None, ?st1)"
    by (simp add: ExecuteCommands_def demo_buildCmd Run_def demo_run_def)
  have b: "buildCmd ''false'' ''/tmp'' = Returns ?cmd"
    by (rule demo_buildCmd)
  have d: "demo_run ?cmd 1 = (Some ?e, 2)"
    by (simp add: demo_run_def)
  have n: "Name ?cmd \<noteq> []" by simp
  note t = ExecuteCommands_stops_at_first_failure[where run = demo_run and dir = "''/tmp''" and st = ?st
               and commands = "[''true'', ''false'', ''true'']"]
  note t_fail = t[THEN conjunct2, THEN conjunct2, THEN conjunct1]
  note t_run = t[THEN conjunct2, THEN conjunct2, THEN conjunct2, THEN conjunct2,
                 THEN conjunct2, THEN conjunct2]
  have r: "Run demo_run ?cmd ?st1 = (Some ?e, ?st2)"
    unfolding t_run[rule_format, OF n] by (simp add: demo_run_def)
  have "ExecuteCommands demo_run ([''true''] @ ''false'' # [''true'']) ''/tmp'' ?st
          = (Returns (Some ?e), ?st2)"
    using p b r by (intro t_fail[rule_format]) simp
  then have "ExecuteCommands demo_run [''true'', ''false'', ''true''] ''/tmp'' ?st
          = (Returns (Some ?e), ?st2)"
    by simp
  with p b d show ?thesis by (intro conjI)
qed

section \<open>ExecuteCommands: how a command string is split\<close>

text \<open>
  Claim C9 as stated fails: the split is \<open>strings.Split(command, " ")\<close>, not a split on
  whitespace. A tab is no separator, and two spaces in a row give an empty argument.
\<close>

theorem buildCmd_whitespace_counterexample:
  "buildCmd (''a'' @ [CHR 0x09] @ ''b'') ''/'' = Returns \<lparr>Name = ''a'' @ [CHR 0x09] @ ''b'', Args = [], Dir = ''/''\<rparr>
   \<and> buildCmd ''a  b'' ''/'' = Returns \<lparr>Name = ''a'', Args = ['''', ''b''], Dir = ''/''\<rparr>
   \<and> buildCmd ''a b'' ''/'' = Returns \<lparr>Name = ''a'', Args = [''b''], Dir = ''/''\<rparr>"
  by (simp add: buildCmd_def Split_def Count_def SP_def Command_def)

text \<open>
  Claim C9, amended. For every command string the loop body builds a command and does
  not panic; the executable name followed by the arguments are the pieces of the string
  between its single space characters: joined with single spaces they give the string
  back, no piece holds a space, and there is one argument per space of the string (so a
  run of spaces gives empty arguments). Nothing is unquoted.
\<close>

theorem buildCmd_single_space_split:
  "\<exists>cmd. buildCmd command dir = Returns cmd
     \<and> Join (Name cmd # Args cmd) SP = command
     \<and> SP \<notin> set (concat (Name cmd # Args cmd))
     \<and> length (Args cmd) = Count command SP
     \<and> Dir cmd = dir"
proof -
  have ne: "Split command SP = hd (Split command SP) # tl (Split command SP)"
    using Split_not_Nil by simp
  have 1: "Join (Name (cmdOf command dir) # Args (cmdOf command dir)) SP = command"
    using ne Join_Split[of command SP] by (simp add: cmdOf_def)
  have 2: "SP \<notin> set (concat (Name (cmdOf command dir) # Args (cmdOf command dir)))"
  proof -
    have "SP \<notin> set (concat (Split command SP))"
      using Split_no_sep by auto
    with ne show ?thesis by (simp add: cmdOf_def)
  qed
  have 3: "length (Args (cmdOf command dir)) = Count command SP"
    using length_Split[of command SP] by (simp add: cmdOf_def)
  have 4: "Dir (cmdOf command dir) = dir"
    by (simp add: cmdOf_def)
  from buildCmd_Returns 1 2 3 4 show ?thesis by blast
qed

section \<open>ExecuteCommands: the empty command\<close>

lemma Split_replicate_sep: "Split (replicate n sep) sep = replicate (Suc n) []"
  by (induction n) (simp_all add: Split_Nil Split_Cons)

lemma blank_replicate: "set c \<subseteq> {SP} \<Longrightarrow> c = replicate (length c) SP"
  by (induction c) auto

lemma cmdOf_blank:
  assumes "set c \<subseteq> {SP}"
  shows "cmdOf c dir = \<lparr>Name = [], Args = replicate (length c) [], Dir = dir\<rparr>"
proof -
  have "Split c SP = replicate (Suc (length c)) []"
    using Split_replicate_sep[of "length c" SP] blank_replicate[OF assms] by simp
  then show ?thesis by (simp add: cmdOf_def)
qed

lemma Run_no_name:
  "Run run \<lparr>Name = [], Args = args, Dir = dir\<rparr> st =
     (Some (ExecError ''exec: no command''),
      st\<lparr>spawned := spawned st @ [(\<lparr>Name = [], Args = args, Dir = dir\<rparr>,
                                   Some (ExecError ''exec: no command''))]\<rparr>)"
  by (simp add: Run_def)

lemma loop_first_blank:
  assumes "set c \<subseteq> {SP}"
  shows "ExecuteCommands_loop run (c # post) dir st =
     (Returns (Some (ExecError ''exec: no command'')),
      st\<lparr>spawned := spawned st @ [(\<lparr>Name = [], Args = replicate (length c) [], Dir = dir\<rparr>,
                                   Some (ExecError ''exec: no command''))]\<rparr>)"
  by (simp add: buildCmd_Returns cmdOf_blank[OF assms] Run_no_name)

lemma Run_spawned_length: "Run run cmd st = (err, st') \<Longrightarrow> length (spawned st') = Suc (length (spawned st))"
  by (auto simp: Run_def split: if_splits prod.splits)

lemma loop_blank_fails:
  assumes "set c \<subseteq> {SP}"
  shows "\<exists>e st'. ExecuteCommands_loop run (pre @ c # post) dir st = (Returns (Some e), st')
           \<and> length (spawned st') \<le> length (spawned st) + length pre + 1"
proof (induction pre arbitrary: st)
  case Nil
  show ?case unfolding append_Nil loop_first_blank[OF assms] by simp
next
  case (Cons x xs)
  obtain err st1 where r: "Run run (cmdOf x dir) st = (err, st1)"
    by (cases "Run run (cmdOf x dir) st")
  note len = Run_spawned_length[OF r]
  show ?case
  proof (cases err)
    case None
    from Cons.IH[of st1] obtain e st' where
      "ExecuteCommands_loop run (xs @ c # post) dir st1 = (Returns (Some e), st')"
      "length (spawned st') \<le> length (spawned st1) + length xs + 1"
      by blast
    with None r len show ?thesis by (simp add: buildCmd_Returns)
  next
    case (Some e)
    with r len show ?thesis by (simp add: buildCmd_Returns)
  qed
qed

text \<open>
  Claim C10. Let \<open>c\<close> be the empty string or a string of spaces only, anywhere in the
  command list. Its split has a first piece, the empty string, which is the executable
  name (no panic). ExecuteCommands then returns an error, and runs at most the commands
  before \<open>c\<close> and \<open>c\<close> itself, none of the commands after it. When the commands before
  \<open>c\<close> succeed, the error returned is the one of running the empty executable name.
\<close>

theorem ExecuteCommands_blank_command:
  assumes "set c \<subseteq> {SP}"
  shows "buildCmd c dir = Returns \<lparr>Name = [], Args = replicate (length c) [], Dir = dir\<rparr>
    \<and> (\<exists>e st'. ExecuteCommands run (pre @ c # post) dir st = (Returns (Some e), st')
           \<and> length (spawned st') \<le> length (spawned st) + length pre + 1)
    \<and> (\<forall>st1. ExecuteCommands run pre dir st = (Returns None, st1) \<longrightarrow>
          ExecuteCommands run (pre @ c # post) dir st =
            (Returns (Some (ExecError ''exec: no command'')),
             st1\<lparr>spawned := spawned st1 @
                [(\<lparr>Name = [], Args = replicate (length c) [], Dir = dir\<rparr>,
                  Some (ExecError ''exec: no command''))]\<rparr>))"
proof (intro conjI allI impI)
  show "buildCmd c dir = Returns \<lparr>Name = [], Args = replicate (length c) [], Dir = dir\<rparr>"
    by (simp add: buildCmd_Returns cmdOf_blank[OF assms])
  show "\<exists>e st'. ExecuteCommands run (pre @ c # post) dir st = (Returns (Some e), st')
           \<and> length (spawned st') \<le> length (spawned st) + length pre + 1"
    using loop_blank_fails[OF assms, of run pre post dir st]
    by (simp add: loop_eq_ExecuteCommands)
next
  fix st1
  assume "ExecuteCommands run pre dir st = (Returns None, st1)"
  then have "ExecuteCommands_loop run pre dir st = (Returns None, st1)"
    by (simp add: loop_eq_ExecuteCommands)
  then have "ExecuteCommands_loop run (pre @ c # post) dir st =
      ExecuteCommands_loop run (c # post) dir st1"
    by (simp add: loop_append)
  then show "ExecuteCommands run (pre @ c # post) dir st =
            (Returns (Some (ExecError ''exec: no command'')),
             st1\<lparr>spawned := spawned st1 @
                [(\<lparr>Name = [], Args = replicate (length c) [], Dir = dir\<rparr>,
                  Some (ExecError ''exec: no command''))]\<rparr>)"
    using loop_first_blank[OF assms, of run post dir st1]
    by (simp add: loop_eq_ExecuteCommands[symmetric])
qed

theorem ExecuteCommands_blank_command_witness:
  "set ''  '' \<subseteq> {SP}
   \<and> buildCmd ''  '' ''/tmp'' = Returns \<lparr>Name = [], Args = ['''', ''''], Dir = ''/tmp''\<rparr>
   \<and> ExecuteCommands demo_run [''true'', ''  '', ''true''] ''/tmp'' \<lparr>world = 0, spawned = []\<rparr> =
       (Returns (Some (ExecError ''exec: no command'')),
        \<lparr>world = 1,
         spawned = [(\<lparr>Name = ''true'', Args = [], Dir = ''/tmp''\<rparr>, None),
                    (\<lparr>Name = [], Args = ['''', ''''], Dir = ''/tmp''\<rparr>,
                     Some (ExecError ''exec: no command''))]\<rparr>)"
proof -
  have h: "set ''  '' \<subseteq> {SP}" by (simp add: SP_def)
  have p: "ExecuteCommands demo_run [''true''] ''/tmp'' \<lparr>world = 0, spawned = []\<rparr> =
     (Returns None, \<lparr>world = 1, spawned = [(\<lparr>Name = ''true'', Args = [], Dir = ''/tmp''\<rparr>, None)]\<rparr>)"
    by (simp add: ExecuteCommands_def demo_buildCmd Run_def demo_run_def)
  from ExecuteCommands_blank_command[OF h, where dir = "''/tmp''" and run = demo_run
        and pre = "[''true'']" and post = "[''true'']" and st = "\<lparr>world = 0, spawned = []\<rparr>"] p h
  show ?thesis by (simp add: numeral_2_eq_2)
qed

section \<open>Parsing the dump\<close>

lemma IndexByte_append: "sep \<notin> set a \<Longrightarrow> IndexByte (a @ sep # b) sep = Some (length a)"
  by (induction a) auto

lemma SplitN_2:
  "SplitN s sep 2 =
     (case IndexByte s sep of None \<Rightarrow> [s] | Some m \<Rightarrow> [take m s, drop (Suc m) s])"
proof (cases s)
  case Nil
  then show ?thesis by (simp add: SplitN_def)
next
  case (Cons c cs)
  then have e: "nat (min 2 (int (length s) + 1)) - 1 = Suc 0"
    by simp
  show ?thesis unfolding SplitN_def e by (simp split: option.splits)
qed

lemma putLine_no_eq: "EQ \<notin> set l \<Longrightarrow> putLine l env = env"
  using IndexByte_None_iff[of l EQ] by (simp add: putLine_def SplitN_2)

lemma putLine_kv: "EQ \<notin> set k \<Longrightarrow> putLine (k @ EQ # v) env = AList.update k v env"
  by (simp add: putLine_def SplitN_2 IndexByte_append)

lemma line_with_eq: "EQ \<in> set l \<Longrightarrow> \<exists>k v. l = k @ EQ # v \<and> EQ \<notin> set k"
  using split_list_first[of EQ l] by blast

lemma key_unique:
  "sep \<notin> set k \<Longrightarrow> sep \<notin> set k' \<Longrightarrow> k @ sep # v = k' @ sep # v' \<Longrightarrow> k = k' \<and> v = v'"
proof (induction k arbitrary: k')
  case Nil
  then show ?case by (cases k') auto
next
  case (Cons a k)
  then show ?case by (cases k') auto
qed

lemma fold_putLine_filter:
  "fold putLine (filter (\<lambda>l. EQ \<in> set l) ls) env = fold putLine ls env"
  by (induction ls arbitrary: env) (simp_all add: putLine_no_eq)

lemma keys_update: "fst ` set (AList.update k v env) = insert k (fst ` set env)"
proof -
  have "set (map fst (AList.update k v env)) = insert k (set (map fst env))"
    unfolding update_keys by auto
  then show ?thesis by simp
qed

lemma keys_putLine:
  "fst ` set (putLine l env) = fst ` set env \<union> {k. \<exists>v. EQ \<notin> set k \<and> k @ EQ # v = l}"
proof (cases "EQ \<in> set l")
  case True
  then obtain k v where l: "l = k @ EQ # v" "EQ \<notin> set k"
    using line_with_eq by blast
  have "{k'. \<exists>v'. EQ \<notin> set k' \<and> k' @ EQ # v' = l} = {k}"
  proof (rule set_eqI)
    fix x
    show "x \<in> {k'. \<exists>v'. EQ \<notin> set k' \<and> k' @ EQ # v' = l} \<longleftrightarrow> x \<in> {k}"
    proof
      assume "x \<in> {k'. \<exists>v'. EQ \<notin> set k' \<and> k' @ EQ # v' = l}"
      then obtain v' where "EQ \<notin> set x" "x @ EQ # v' = k @ EQ # v"
        using l(1) by auto
      with key_unique[of EQ x k v' v] l(2) show "x \<in> {k}" by simp
    next
      assume "x \<in> {k}"
      with l show "x \<in> {k'. \<exists>v'. EQ \<notin> set k' \<and> k' @ EQ # v' = l}" by auto
    qed
  qed
  moreover have "fst ` set (putLine l env) = insert k (fst ` set env)"
    using l by (simp add: putLine_kv keys_update)
  ultimately show ?thesis by simp
next
  case False
  then have e: "{k. \<exists>v. EQ \<notin> set k \<and> k @ EQ # v = l} = {}" by auto
  show ?thesis unfolding e putLine_no_eq[OF False] by simp
qed

lemma keys_fold_putLine:
  "fst ` set (fold putLine ls env) =
     fst ` set env \<union> {k. \<exists>v. EQ \<notin> set k \<and> k @ EQ # v \<in> set ls}"
proof (induction ls arbitrary: env)
  case Nil
  then show ?case by simp
next
  case (Cons l ls)
  show ?case
    unfolding fold_simps Cons.IH keys_putLine by auto
qed

lemma distinct_putLine: "distinct (map fst env) \<Longrightarrow> distinct (map fst (putLine l env))"
  by (simp add: putLine_def Let_def distinct_update)

lemma distinct_fold_putLine:
  "distinct (map fst env) \<Longrightarrow> distinct (map fst (fold putLine ls env))"
  by (induction ls arbitrary: env) (simp_all add: distinct_putLine)

lemma map_of_putLine_other:
  assumes "\<And>v'. l \<noteq> k @ EQ # v'"
  shows "map_of (putLine l env) k = map_of env k"
proof (cases "EQ \<in> set l")
  case True
  then obtain k' v where l: "l = k' @ EQ # v" "EQ \<notin> set k'"
    using line_with_eq by blast
  with assms have "k' \<noteq> k" by auto
  with l show ?thesis by (simp add: putLine_kv update_conv')
next
  case False
  then show ?thesis by (simp add: putLine_no_eq)
qed

lemma map_of_fold_putLine_other:
  "(\<And>v'. k @ EQ # v' \<notin> set ls) \<Longrightarrow> map_of (fold putLine ls env) k = map_of env k"
proof (induction ls arbitrary: env)
  case Nil
  then show ?case by simp
next
  case (Cons l ls)
  have "map_of (fold putLine ls (putLine l env)) k = map_of (putLine l env) k"
    using Cons.prems by (intro Cons.IH) auto
  also have "\<dots> = map_of env k"
    using Cons.prems by (intro map_of_putLine_other) auto
  finally show ?case by simp
qed

lemma map_of_fold_putLine_last:
  assumes "EQ \<notin> set k" and "\<And>v'. k @ EQ # v' \<notin> set post"
  shows "map_of (fold putLine (pre @ (k @ EQ # v) # post) env) k = Some v"
proof -
  have "map_of (fold putLine (pre @ (k @ EQ # v) # post) env) k =
        map_of (putLine (k @ EQ # v) (fold putLine pre env)) k"
    using assms(2) by (simp add: map_of_fold_putLine_other)
  also have "\<dots> = Some v"
    using assms(1) by (simp add: putLine_kv update_conv')
  finally show ?thesis .
qed

section \<open>Writing the snapshot into the environment\<close>

lemma Setenv_at:
  "snd (Setenv k v osenv) k' =
     (if k' = k \<and> \<not> (k = [] \<or> EQ \<in> set k \<or> NUL \<in> set k \<or> NUL \<in> set v)
      then Some v else osenv k')"
  by (simp add: Setenv_def)

lemma setAll_Nil: "setAll [] osenv = osenv"
  by (simp add: setAll_def)

lemma setAll_Cons: "setAll ((k, v) # env) osenv = setAll env (snd (Setenv k v osenv))"
  by (simp add: setAll_def)

lemma setAll_other: "k \<notin> fst ` set env \<Longrightarrow> setAll env osenv k = osenv k"
proof (induction env arbitrary: osenv)
  case Nil
  then show ?case by (simp add: setAll_Nil)
next
  case (Cons p env)
  obtain k' v' where p: "p = (k', v')" by (cases p)
  with Cons show ?case by (simp add: setAll_Cons Setenv_at)
qed

lemma setAll_key:
  "distinct (map fst env) \<Longrightarrow> (k, v) \<in> set env \<Longrightarrow>
   setAll env osenv k =
     (if k = [] \<or> EQ \<in> set k \<or> NUL \<in> set k \<or> NUL \<in> set v then osenv k else Some v)"
proof (induction env arbitrary: osenv)
  case Nil
  then show ?case by simp
next
  case (Cons p env)
  obtain k' v' where p: "p = (k', v')" by (cases p)
  show ?case
  proof (cases "(k, v) = (k', v')")
    case True
    with Cons.prems p have "k \<notin> fst ` set env" by auto
    then have "setAll env (snd (Setenv k v osenv)) k = snd (Setenv k v osenv) k"
      by (rule setAll_other)
    with True p show ?thesis by (simp add: setAll_Cons Setenv_at)
  next
    case False
    with Cons.prems p have in_env: "(k, v) \<in> set env" and d: "distinct (map fst env)"
      by auto
    from Cons.prems p in_env have "k \<noteq> k'" by force
    then have other: "snd (Setenv k' v' osenv) k = osenv k"
      by (simp add: Setenv_at)
    show ?thesis
      unfolding p setAll_Cons Cons.IH[OF d in_env] other by (rule refl)
  qed
qed

lemma setAll_keeps: "osenv k \<noteq> None \<Longrightarrow> setAll env osenv k \<noteq> None"
proof (induction env arbitrary: osenv)
  case Nil
  then show ?case by (simp add: setAll_Nil)
next
  case (Cons p env)
  obtain k' v' where p: "p = (k', v')" by (cases p)
  have "snd (Setenv k' v' osenv) k \<noteq> None"
    using Cons.prems by (simp add: Setenv_at)
  from Cons.IH[of "snd (Setenv k' v' osenv)", OF this] p show ?case by (simp add: setAll_Cons)
qed

lemma setAll_order:
  assumes "distinct (map fst env)" "distinct (map fst env')" "set env' = set env"
  shows "setAll env' osenv = setAll env osenv"
proof (rule ext)
  fix k
  show "setAll env' osenv k = setAll env osenv k"
  proof (cases "k \<in> fst ` set env")
    case True
    then obtain v where "(k, v) \<in> set env" by auto
    with assms show ?thesis by (simp add: setAll_key)
  next
    case False
    with assms(3) show ?thesis by (simp add: setAll_other)
  qed
qed

lemma distinct_parseSplit: "distinct (map fst (parseSplit out))"
  by (simp add: parseSplit_def distinct_fold_putLine)

lemma distinct_parseScanner: "distinct (map fst (parseScanner out))"
  by (simp add: parseScanner_def distinct_fold_putLine)

lemma ShellSourceUnix_ok:
  "snd (capture (unixCmd script)) = None \<Longrightarrow>
   ShellSourceUnix capture script osenv =
     (None, setAll (parseSplit (fst (capture (unixCmd script)))) osenv)"
  by (cases "capture (unixCmd script)") (simp add: ShellSourceUnix_def)

lemma ShellSourceBatch_ok:
  "snd (capture (batchCmd script)) = None \<Longrightarrow>
   ShellSourceBatch capture script osenv =
     (None, setAll (parseScanner (fst (capture (batchCmd script)))) osenv)"
  by (cases "capture (batchCmd script)") (simp add: ShellSourceBatch_def)

lemma ShellSourcePowerShell_ok:
  "snd (capture (powerShellCmd script)) = None \<Longrightarrow>
   ShellSourcePowerShell capture script osenv =
     (None, setAll (parseScanner (fst (capture (powerShellCmd script)))) osenv)"
  by (cases "capture (powerShellCmd script)") (simp add: ShellSourcePowerShell_def)

lemma ShellSourceUnix_failed:
  "snd (capture (unixCmd script)) = Some e \<Longrightarrow>
   ShellSourceUnix capture script osenv =
     (Some (ErrorsNew (''Failed to execute shell script: '' @ Error e)), osenv)"
  by (cases "capture (unixCmd script)") (simp add: ShellSourceUnix_def)

lemma ShellSourceBatch_failed:
  "snd (capture (batchCmd script)) = Some e \<Longrightarrow>
   ShellSourceBatch capture script osenv =
     (Some (ErrorsNew (''Failed to execute .bat file: '' @ Error e)), osenv)"
  by (cases "capture (batchCmd script)") (simp add: ShellSourceBatch_def)

lemma ShellSourcePowerShell_failed:
  "snd (capture (powerShellCmd script)) = Some e \<Longrightarrow>
   ShellSourcePowerShell capture script osenv =
     (Some (ErrorsNew (''Failed to execute .ps1 file: '' @ Error e)), osenv)"
  by (cases "capture (powerShellCmd script)") (simp add: ShellSourcePowerShell_def)

section \<open>Sourcing: a failed child\<close>

text \<open>
  Claim C3. When the child of a sourcing function fails (\<open>cmd.Output()\<close> or
  \<open>cmd.Run()\<close> returns an error, whether the child could not be started or exited with a
  non-zero status), the function returns a non-nil error, made of its own prefix and the
  message of the child's error, and the process-wide environment is the one before the
  call.
\<close>

theorem sourcing_failure_leaves_environment:
  "(snd (capture (unixCmd script)) = Some e \<longrightarrow>
      ShellSourceUnix capture script osenv =
        (Some (ErrorsNew (''Failed to execute shell script: '' @ Error e)), osenv))
   \<and> (snd (capture (batchCmd script)) = Some e \<longrightarrow>
      ShellSourceBatch capture script osenv =
        (Some (ErrorsNew (''Failed to execute .bat file: '' @ Error e)), osenv))
   \<and> (snd (capture (powerShellCmd script)) = Some e \<longrightarrow>
      ShellSourcePowerShell capture script osenv =
        (Some (ErrorsNew (''Failed to execute .ps1 file: '' @ Error e)), osenv))"
  by (simp add: ShellSourceUnix_failed ShellSourceBatch_failed ShellSourcePowerShell_failed)

theorem sourcing_failure_leaves_environment_witness:
  "snd (failing (unixCmd ''env.sh'')) = Some (ExecError ''exit status 1'')
   \<and> snd (failing (batchCmd ''env.bat'')) = Some (ExecError ''exit status 1'')
   \<and> snd (failing (powerShellCmd ''env.ps1'')) = Some (ExecError ''exit status 1'')
   \<and> ShellSourceUnix failing ''env.sh'' [''A'' \<mapsto> ''0''] =
        (Some (ErrorsNew ''Failed to execute shell script: exit status 1''), [''A'' \<mapsto> ''0''])
   \<and> ShellSourceBatch failing ''env.bat'' [''A'' \<mapsto> ''0''] =
        (Some (ErrorsNew ''Failed to execute .bat file: exit status 1''), [''A'' \<mapsto> ''0''])
   \<and> ShellSourcePowerShell failing ''env.ps1'' [''A'' \<mapsto> ''0''] =
        (Some (ErrorsNew ''Failed to execute .ps1 file: exit status 1''), [''A'' \<mapsto> ''0''])"
  using sourcing_failure_leaves_environment
          [where capture = failing and script = "''env.sh''" and osenv = "[''A'' \<mapsto> ''0'']"
             and e = "ExecError ''exit status 1''"]
        sourcing_failure_leaves_environment
          [where capture = failing and script = "''env.bat''" and osenv = "[''A'' \<mapsto> ''0'']"
             and e = "ExecError ''exit status 1''"]
        sourcing_failure_leaves_environment
          [where capture = failing and script = "''env.ps1''" and osenv = "[''A'' \<mapsto> ''0'']"
             and e = "ExecError ''exit status 1''"]
  by (simp add: failing_def)

section \<open>The scanner and the lines of the data\<close>

lemma Scanner_Scan_no_LF:
  "LF \<notin> set a \<Longrightarrow>
   Scanner_Scan a =
     (if a = [] then ([], None)
      else if MaxScanTokenSize \<le> length a then ([], Some ErrTooLong)
      else ([dropCR a], None))"
  using IndexByte_None_iff[of a LF] by (subst Scanner_Scan.simps) simp

lemma Scanner_Scan_append:
  "LF \<notin> set a \<Longrightarrow>
   Scanner_Scan (a @ LF # b) =
     (if MaxScanTokenSize \<le> length a then ([], Some ErrTooLong)
      else (dropCR a # fst (Scanner_Scan b), snd (Scanner_Scan b)))"
  by (subst Scanner_Scan.simps) (simp add: IndexByte_append split: prod.splits)

lemma Scanner_Scan_Join:
  "\<forall>l\<in>set ls. LF \<notin> set l \<Longrightarrow> ls \<noteq> [] \<Longrightarrow> Scanner_Scan (Join ls LF) = scanOf ls"
proof (induction ls rule: scanOf.induct)
  case 1
  then show ?case by simp
next
  case (2 l)
  then show ?case by (simp add: Scanner_Scan_no_LF)
next
  case (3 l x xs)
  then show ?case by (simp add: Scanner_Scan_append)
qed

lemma Scanner_Scan_Split: "Scanner_Scan data = scanOf (Split data LF)"
  using Scanner_Scan_Join[of "Split data LF"] Split_no_sep[of _ data LF] Split_not_Nil[of data LF]
  by (simp add: Join_Split)

lemma long_line_props:
  "length long_line = MaxScanTokenSize" "LF \<notin> set long_line" "EQ \<notin> set long_line"
  "long_line \<noteq> []"
  by (auto simp: long_line_def LF_def EQ_def MaxScanTokenSize_def)

lemma Scanner_Scan_long_line: "Scanner_Scan long_line = ([], Some ErrTooLong)"
  by (simp add: Scanner_Scan_no_LF long_line_props)

lemma keys_no_EQ: "k \<in> fst ` set (fold putLine ls []) \<Longrightarrow> EQ \<notin> set k"
  unfolding keys_fold_putLine by auto

section \<open>Sourcing: what a successful call writes\<close>

text \<open>
  Claim C1, amended. After a successful call of ShellSourceUnix, ShellSourceBatch or
  ShellSourcePowerShell, with \<open>snap\<close> the snapshot parsed from the captured output: every
  key of the snapshot that \<open>os.Setenv\<close> accepts (a non-empty key, no NUL byte in the key or
  in the value) has the snapshot's value in the process-wide environment, whatever it had
  before; a key that \<open>os.Setenv\<close> refuses keeps what it had; every name that is no key of
  the snapshot keeps what it had; and no variable that was set is unset.
\<close>

theorem sourcing_writes_snapshot:
  assumes "(res, snap) = (ShellSourceUnix capture script osenv,
                          parseSplit (fst (capture (unixCmd script))))
         \<or> (res, snap) = (ShellSourceBatch capture script osenv,
                          parseScanner (fst (capture (batchCmd script))))
         \<or> (res, snap) = (ShellSourcePowerShell capture script osenv,
                          parseScanner (fst (capture (powerShellCmd script))))"
    and "fst res = None"
  shows "(\<forall>k v. (k, v) \<in> set snap \<longrightarrow>
            snd res k = (if k = [] \<or> NUL \<in> set k \<or> NUL \<in> set v then osenv k else Some v))
       \<and> (\<forall>k. k \<notin> fst ` set snap \<longrightarrow> snd res k = osenv k)
       \<and> (\<forall>k. osenv k \<noteq> None \<longrightarrow> snd res k \<noteq> None)"
proof -
  have res: "snd res = setAll snap osenv"
    using assms(1)
  proof (elim disjE)
    assume a: "(res, snap) = (ShellSourceUnix capture script osenv,
                              parseSplit (fst (capture (unixCmd script))))"
    with assms(2) have "snd (capture (unixCmd script)) = None"
      by (cases "capture (unixCmd script)") (auto simp: ShellSourceUnix_def split: option.splits)
    then have "ShellSourceUnix capture script osenv = (None, setAll snap osenv)"
      using a ShellSourceUnix_ok[of capture script osenv] by simp
    with a show ?thesis by simp
  next
    assume a: "(res, snap) = (ShellSourceBatch capture script osenv,
                              parseScanner (fst (capture (batchCmd script))))"
    with assms(2) have "snd (capture (batchCmd script)) = None"
      by (cases "capture (batchCmd script)") (auto simp: ShellSourceBatch_def split: option.splits)
    then have "ShellSourceBatch capture script osenv = (None, setAll snap osenv)"
      using a ShellSourceBatch_ok[of capture script osenv] by simp
    with a show ?thesis by simp
  next
    assume a: "(res, snap) = (ShellSourcePowerShell capture script osenv,
                              parseScanner (fst (capture (powerShellCmd script))))"
    with assms(2) have "snd (capture (powerShellCmd script)) = None"
      by (cases "capture (powerShellCmd script)")
         (auto simp: ShellSourcePowerShell_def split: option.splits)
    then have "ShellSourcePowerShell capture script osenv = (None, setAll snap osenv)"
      using a ShellSourcePowerShell_ok[of capture script osenv] by simp
    with a show ?thesis by simp
  qed
  have d: "distinct (map fst snap)"
    using assms(1) distinct_parseSplit distinct_parseScanner by auto
  have noeq: "EQ \<notin> set k" if "k \<in> fst ` set snap" for k
    using assms(1) that keys_no_EQ by (auto simp: parseSplit_def parseScanner_def)
  have 1: "snd res k = (if k = [] \<or> NUL \<in> set k \<or> NUL \<in> set v then osenv k else Some v)"
    if "(k, v) \<in> set snap" for k v
  proof -
    from that have "k \<in> fst ` set snap" by force
    then have "EQ \<notin> set k" by (rule noeq)
    with setAll_key[OF d that, of osenv] res show ?thesis by simp
  qed
  have 2: "snd res k = osenv k" if "k \<notin> fst ` set snap" for k
    using that res by (simp add: setAll_other)
  have 3: "snd res k \<noteq> None" if "osenv k \<noteq> None" for k
    using that res by (simp add: setAll_keeps)
  from 1 2 3 show ?thesis by blast
qed

lemma demo_parseSplit:
  "parseSplit (''A=1'' @ [LF] @ ''=x'' @ [LF] @ ''B=2'') = [(''A'', ''1''), ([], ''x''), (''B'', ''2'')]"
  by (simp add: parseSplit_def Split_def Count_def LF_def putLine_def SplitN_def EQ_def)

theorem sourcing_writes_snapshot_witness:
  "fst (ShellSourceUnix (printing (''A=1'' @ [LF] @ ''=x'' @ [LF] @ ''B=2'')) ''env.sh''
         [''A'' \<mapsto> ''0'', ''C'' \<mapsto> ''3'']) = None
   \<and> snd (ShellSourceUnix (printing (''A=1'' @ [LF] @ ''=x'' @ [LF] @ ''B=2'')) ''env.sh''
         [''A'' \<mapsto> ''0'', ''C'' \<mapsto> ''3'']) ''A'' = Some ''1''
   \<and> snd (ShellSourceUnix (printing (''A=1'' @ [LF] @ ''=x'' @ [LF] @ ''B=2'')) ''env.sh''
         [''A'' \<mapsto> ''0'', ''C'' \<mapsto> ''3'']) ''B'' = Some ''2''
   \<and> snd (ShellSourceUnix (printing (''A=1'' @ [LF] @ ''=x'' @ [LF] @ ''B=2'')) ''env.sh''
         [''A'' \<mapsto> ''0'', ''C'' \<mapsto> ''3'']) ''C'' = Some ''3''
   \<and> snd (ShellSourceUnix (printing (''A=1'' @ [LF] @ ''=x'' @ [LF] @ ''B=2'')) ''env.sh''
         [''A'' \<mapsto> ''0'', ''C'' \<mapsto> ''3'']) [] = None"
proof -
  let ?dump = "''A=1'' @ [LF] @ ''=x'' @ [LF] @ ''B=2''"
  let ?env = "[''A'' \<mapsto> ''0'', ''C'' \<mapsto> ''3'']"
  let ?res = "ShellSourceUnix (printing ?dump) ''env.sh'' ?env"
  have ok: "fst ?res = None"
    by (simp add: ShellSourceUnix_def printing_def)
  have snap: "parseSplit (fst (printing ?dump (unixCmd ''env.sh'')))
                = [(''A'', ''1''), ([], ''x''), (''B'', ''2'')]"
    using demo_parseSplit by (simp add: printing_def)
  have "(?res, [(''A'', ''1''), ([], ''x''), (''B'', ''2'')]) =
          (ShellSourceUnix (printing ?dump) ''env.sh'' ?env,
           parseSplit (fst (printing ?dump (unixCmd ''env.sh''))))"
    unfolding snap by (rule refl)
  then have h: "(?res, [(''A'', ''1''), ([], ''x''), (''B'', ''2'')]) =
          (ShellSourceUnix (printing ?dump) ''env.sh'' ?env,
           parseSplit (fst (printing ?dump (unixCmd ''env.sh''))))
      \<or> (?res, [(''A'', ''1''), ([], ''x''), (''B'', ''2'')]) =
          (ShellSourceBatch (printing ?dump) ''env.sh'' ?env,
           parseScanner (fst (printing ?dump (batchCmd ''env.sh''))))
      \<or> (?res, [(''A'', ''1''), ([], ''x''), (''B'', ''2'')]) =
          (ShellSourcePowerShell (printing ?dump) ''env.sh'' ?env,
           parseScanner (fst (printing ?dump (powerShellCmd ''env.sh''))))"
    by (rule disjI1)
  note t = sourcing_writes_snapshot[OF h ok]
  from t have a: "snd ?res ''A'' = Some ''1''"
    by (simp add: NUL_def)
  from t have b: "snd ?res ''B'' = Some ''2''"
    by (simp add: NUL_def)
  from t have c: "snd ?res ''C'' = Some ''3''"
    by simp
  from t have e: "snd ?res [] = None"
    by simp
  from ok a b c e show ?thesis by simp
qed

text \<open>
  Claim C1 as stated fails on the empty key: the line \<open>=v\<close> puts the key \<open>""\<close> into the
  snapshot, \<open>os.Setenv("", "v")\<close> is refused, its error is discarded, and the environment
  has no such variable after the successful call.
\<close>

theorem sourcing_empty_key_counterexample:
  "ShellSourceUnix (printing ''=v'') ''env.sh'' Map.empty = (None, Map.empty)
   \<and> parseSplit (fst (printing ''=v'' (unixCmd ''env.sh''))) = [([], ''v'')]"
  by (simp add: ShellSourceUnix_def printing_def parseSplit_def Split_def Count_def LF_def
        putLine_def SplitN_def EQ_def setAll_def Setenv_def)

section \<open>The scanner: how far it reads\<close>

lemma Split_no_sep_single: "sep \<notin> set a \<Longrightarrow> Split a sep = [a]"
  by (induction a) (auto simp: Split_Nil Split_Cons)

lemma Split_append_sep: "sep \<notin> set a \<Longrightarrow> Split (a @ sep # b) sep = a # Split b sep"
  by (induction a) (auto simp: Split_Cons)

lemma scanOf_Cons_short:
  "length l < MaxScanTokenSize \<Longrightarrow> l \<noteq> [] \<or> ls \<noteq> [] \<Longrightarrow>
   fst (scanOf (l # ls)) = dropCR l # fst (scanOf ls)"
  by (cases ls) auto

lemma scanOf_prefix:
  "\<forall>x\<in>set pre. length x < MaxScanTokenSize \<Longrightarrow> post \<noteq> [] \<Longrightarrow>
   fst (scanOf (pre @ post)) = map dropCR pre @ fst (scanOf post)"
proof (induction pre)
  case Nil
  then show ?case by simp
next
  case (Cons x pre)
  then have "fst (scanOf (x # (pre @ post))) = dropCR x # fst (scanOf (pre @ post))"
    by (intro scanOf_Cons_short) auto
  with Cons show ?case by simp
qed

lemma scanOf_tokens: "set (fst (scanOf ls)) \<subseteq> dropCR ` set ls"
  by (induction ls rule: scanOf.induct) auto

lemma dropCR_kv: "dropCR (k @ EQ # v) = k @ EQ # dropCR v"
  by (cases v rule: rev_cases) (auto simp: dropCR_def EQ_def CR_def butlast_append)

lemma dropCR_cases: "l = dropCR l \<or> l = dropCR l @ [CR]"
  by (cases l rule: rev_cases) (auto simp: dropCR_def)

lemma dropCR_kv_inv:
  assumes "dropCR l = k @ EQ # v"
  shows "\<exists>v'. l = k @ EQ # v'"
  using dropCR_cases[of l] assms by (metis append_Cons append_assoc)

lemma tokens_no_key:
  assumes "\<And>v'. k @ EQ # v' \<notin> set ls"
  shows "k @ EQ # v \<notin> set (fst (scanOf ls))"
proof
  assume "k @ EQ # v \<in> set (fst (scanOf ls))"
  with scanOf_tokens obtain l where l: "l \<in> set ls" "dropCR l = k @ EQ # v"
    by (metis (no_types, lifting) image_iff subsetD)
  from dropCR_kv_inv[OF l(2)] obtain v' where "l = k @ EQ # v'" by blast
  with l(1) assms show False by blast
qed

lemma scanOf_reaches:
  assumes "\<forall>x\<in>set (pre @ [k @ EQ # v]). length x < MaxScanTokenSize"
  shows "fst (scanOf (pre @ (k @ EQ # v) # post)) =
           map dropCR pre @ (k @ EQ # dropCR v) # fst (scanOf post)"
proof -
  have "fst (scanOf (pre @ (k @ EQ # v) # post)) =
        map dropCR pre @ fst (scanOf ((k @ EQ # v) # post))"
    using assms by (intro scanOf_prefix) auto
  moreover have "fst (scanOf ((k @ EQ # v) # post)) = dropCR (k @ EQ # v) # fst (scanOf post)"
    using assms by (intro scanOf_Cons_short) auto
  ultimately show ?thesis by (simp add: dropCR_kv)
qed

lemma scanOf_no_error:
  "snd (scanOf ls) = None \<Longrightarrow> \<forall>l\<in>set ls. length l < MaxScanTokenSize"
proof (induction ls rule: scanOf.induct)
  case 1
  then show ?case by simp
next
  case (2 l)
  then show ?case by (auto simp: MaxScanTokenSize_def split: if_splits)
next
  case (3 l x xs)
  then show ?case by (auto split: if_splits)
qed

lemma long_dump_lines: "Split long_dump LF = [''K=1'', long_line, ''K=2'']"
proof -
  have a: "LF \<notin> set ''K=1''" "LF \<notin> set ''K=2''" by (simp_all add: LF_def)
  have "Split (''K=1'' @ LF # long_line @ LF # ''K=2'') LF = [''K=1'', long_line, ''K=2'']"
    unfolding Split_append_sep[OF a(1)] Split_append_sep[OF long_line_props(2)]
      Split_no_sep_single[OF a(2)] by (rule refl)
  then show ?thesis by (simp add: long_dump_def)
qed

lemma long_dump_scan: "Scanner_Scan long_dump = ([''K=1''], Some ErrTooLong)"
  unfolding Scanner_Scan_Split long_dump_lines
  by (simp add: long_line_props(1) MaxScanTokenSize_def dropCR_def CR_def)

lemma long_dump_parse:
  "parseSplit long_dump = [(''K'', ''2'')]"
  "parseScanner long_dump = [(''K'', ''1'')]"
proof -
  have k: "putLine ''K=1'' [] = [(''K'', ''1'')]"
    "putLine ''K=2'' [(''K'', ''1'')] = [(''K'', ''2'')]"
    by (simp_all add: putLine_def SplitN_def EQ_def)
  show "parseSplit long_dump = [(''K'', ''2'')]"
    unfolding parseSplit_def long_dump_lines
    by (simp add: k putLine_no_eq[OF long_line_props(3)])
  show "parseScanner long_dump = [(''K'', ''1'')]"
    unfolding parseScanner_def long_dump_scan by (simp add: k)
qed

lemma long_dump_sourced:
  "ShellSourceUnix (printing long_dump) script Map.empty = (None, [''K'' \<mapsto> ''2''])"
  "ShellSourceBatch (printing long_dump) script Map.empty = (None, [''K'' \<mapsto> ''1''])"
  "ShellSourcePowerShell (printing long_dump) script Map.empty = (None, [''K'' \<mapsto> ''1''])"
  by (simp_all add: ShellSourceUnix_def ShellSourceBatch_def ShellSourcePowerShell_def
        printing_def long_dump_parse setAll_def Setenv_def EQ_def NUL_def)

text \<open>
  The last line of a key wins: in the snapshot of ShellSourceUnix for every dump, and in
  the snapshot of the scanner-based functions when that line and the lines before it are
  shorter than \<open>MaxScanTokenSize\<close> bytes.
\<close>

lemma last_line_of_key_wins:
  assumes "Split dump LF = pre @ (k @ EQ # v) # post"
    and "EQ \<notin> set k"
    and "\<forall>v'. k @ EQ # v' \<notin> set post"
  shows "map_of (parseSplit dump) k = Some v
       \<and> ((\<forall>x\<in>set (pre @ [k @ EQ # v]). length x < MaxScanTokenSize) \<longrightarrow>
            map_of (parseScanner dump) k = Some (dropCR v))"
proof (intro conjI impI)
  show "map_of (parseSplit dump) k = Some v"
    unfolding parseSplit_def assms(1)
    using assms(2,3) by (intro map_of_fold_putLine_last) auto
next
  assume short: "\<forall>x\<in>set (pre @ [k @ EQ # v]). length x < MaxScanTokenSize"
  have "k @ EQ # v' \<notin> set (fst (scanOf post))" for v'
    using assms(3) by (intro tokens_no_key) auto
  then show "map_of (parseScanner dump) k = Some (dropCR v)"
    unfolding parseScanner_def Scanner_Scan_Split assms(1) scanOf_reaches[OF short]
    using assms(2) by (intro map_of_fold_putLine_last) auto
qed

section \<open>Sourcing: a line too long for the scanner\<close>

text \<open>
  Claim C2 holds in ShellSourceUnix and is broken by ShellSourceBatch and
  ShellSourcePowerShell on the dump \<open>long_dump\<close>, whose lines are \<open>K=1\<close>, a line of
  \<open>MaxScanTokenSize\<close> bytes and \<open>K=2\<close>: the last line of the key \<open>K\<close> holds 2, the snapshot
  of ShellSourceUnix maps \<open>K\<close> to 2, and the snapshot of the scanner-based functions maps
  \<open>K\<close> to 1, the value of the first line.
\<close>

theorem snapshot_last_write_lost_after_long_line:
  "Split long_dump LF = [''K=1'', long_line, ''K=2'']
   \<and> parseSplit long_dump = [(''K'', ''2'')]
   \<and> parseScanner long_dump = [(''K'', ''1'')]
   \<and> ShellSourceUnix (printing long_dump) ''env.sh'' Map.empty = (None, [''K'' \<mapsto> ''2''])
   \<and> ShellSourceBatch (printing long_dump) ''env.bat'' Map.empty = (None, [''K'' \<mapsto> ''1''])
   \<and> ShellSourcePowerShell (printing long_dump) ''env.ps1'' Map.empty
        = (None, [''K'' \<mapsto> ''1''])"
  using long_dump_lines long_dump_parse long_dump_sourced by (intro conjI)

text \<open>
  Claim C4 is broken by ShellSourceBatch and ShellSourcePowerShell on the dump
  \<open>long_dump\<close>: the scanner stops with \<open>ErrTooLong\<close> after the first line, and both
  functions return nil.
\<close>

theorem sourcing_scan_error_returns_nil:
  "Scanner_Scan (fst (printing long_dump (batchCmd ''env.bat'')))
     = ([''K=1''], Some ErrTooLong)
   \<and> fst (ShellSourceBatch (printing long_dump) ''env.bat'' Map.empty) = None
   \<and> Scanner_Scan (fst (printing long_dump (powerShellCmd ''env.ps1'')))
     = ([''K=1''], Some ErrTooLong)
   \<and> fst (ShellSourcePowerShell (printing long_dump) ''env.ps1'' Map.empty) = None"
  by (simp add: printing_def long_dump_scan long_dump_sourced)

section \<open>The snapshot: lines without an equals sign\<close>

lemma fold_putLine_skip:
  "EQ \<notin> set l \<Longrightarrow> fold putLine (pre @ l # post) env = fold putLine (pre @ post) env"
  by (simp add: putLine_no_eq)

text \<open>
  Claim C5. In the parsing step of ShellSourceUnix, for every dump: a line \<open>l\<close> without
  \<open>=\<close> (a blank line, a banner) adds no key, since the snapshot is the one of the dump
  without that line; and parsing goes on after it, since every line \<open>k=v\<close> after \<open>l\<close> has
  its key in the snapshot.
\<close>

theorem snapshot_skips_lines_without_EQ:
  assumes "Split dump LF = pre @ l # post" and "EQ \<notin> set l"
  shows "parseSplit dump = fold putLine (pre @ post) []
    \<and> (\<forall>k v. EQ \<notin> set k \<and> k @ EQ # v \<in> set post \<longrightarrow> k \<in> fst ` set (parseSplit dump))"
proof (intro conjI allI impI)
  show 1: "parseSplit dump = fold putLine (pre @ post) []"
    unfolding parseSplit_def assms(1) using assms(2) by (rule fold_putLine_skip)
  show "k \<in> fst ` set (parseSplit dump)"
    if "EQ \<notin> set k \<and> k @ EQ # v \<in> set post" for k v
  proof -
    from that have "\<exists>v. EQ \<notin> set k \<and> k @ EQ # v \<in> set (pre @ post)" by auto
    then show ?thesis unfolding 1 keys_fold_putLine by blast
  qed
qed

theorem snapshot_skips_lines_without_EQ_witness:
  "Split (''Welcome'' @ [LF, LF] @ ''A=1'') LF = [] @ ''Welcome'' # ['''', ''A=1'']
   \<and> EQ \<notin> set ''Welcome''
   \<and> parseSplit (''Welcome'' @ [LF, LF] @ ''A=1'') = [(''A'', ''1'')]
   \<and> ''A'' \<in> fst ` set (parseSplit (''Welcome'' @ [LF, LF] @ ''A=1''))"
proof -
  let ?dump = "''Welcome'' @ [LF, LF] @ ''A=1''"
  have s: "Split ?dump LF = [] @ ''Welcome'' # ['''', ''A=1'']"
    by (simp add: Split_def Count_def LF_def)
  have e: "EQ \<notin> set ''Welcome''" by (simp add: EQ_def)
  note t = snapshot_skips_lines_without_EQ[OF s e]
  note t1 = t[THEN conjunct1]
  note t2 = t[THEN conjunct2]
  have p: "parseSplit ?dump = [(''A'', ''1'')]"
    unfolding t1 by (simp add: putLine_def SplitN_def EQ_def)
  have pa: "EQ \<notin> set ''A'' \<and> ''A'' @ EQ # ''1'' \<in> set ['''', ''A=1'']"
    by (simp add: EQ_def)
  have a: "''A'' \<in> fst ` set (parseSplit ?dump)"
    by (rule t2[rule_format, OF pa])
  from s e p a show ?thesis by (intro conjI)
qed

section \<open>The keys of a snapshot\<close>

text \<open>
  Claim C6 as stated fails: the line \<open>=VALUE\<close> is split into the two parts \<open>""\<close> and
  \<open>VALUE\<close>, and the empty key is stored.
\<close>

theorem snapshot_empty_key_counterexample:
  "parseSplit ''=VALUE'' = [([], ''VALUE'')] \<and> parseScanner ''=VALUE'' = [([], ''VALUE'')]"
  by (simp add: parseSplit_def parseScanner_def Scanner_Scan_Split Split_def Count_def LF_def
        putLine_def SplitN_def EQ_def MaxScanTokenSize_def dropCR_def CR_def)

text \<open>
  Claim C6, amended. No key of a snapshot holds the character \<open>=\<close>. A key can be the
  empty string: the line \<open>=VALUE\<close> stores \<open>VALUE\<close> under the empty key, so that a dump
  with such a line gives a snapshot with the empty key, mapped to the \<open>VALUE\<close> of the last
  such line: in ShellSourceUnix for every dump, and in the scanner-based functions,
  which drop the trailing carriage return of a line, for every dump that the scanner
  reads without error.
\<close>

theorem snapshot_keys_without_EQ:
  "(\<forall>k \<in> fst ` set (parseSplit out). EQ \<notin> set k)
   \<and> (\<forall>k \<in> fst ` set (parseScanner out). EQ \<notin> set k)
   \<and> (\<forall>v env. putLine (EQ # v) env = AList.update [] v env)
   \<and> (\<forall>v. EQ # v \<in> set (Split out LF) \<longrightarrow> [] \<in> fst ` set (parseSplit out))
   \<and> (\<forall>pre v post. Split out LF = pre @ (EQ # v) # post \<and> (\<forall>w. EQ # w \<notin> set post) \<longrightarrow>
         map_of (parseSplit out) [] = Some v
         \<and> (snd (Scanner_Scan out) = None \<longrightarrow> map_of (parseScanner out) [] = Some (dropCR v)))"
proof (intro conjI ballI allI impI)
  show "EQ \<notin> set k" if "k \<in> fst ` set (parseSplit out)" for k
    using that unfolding parseSplit_def by (rule keys_no_EQ)
  show "EQ \<notin> set k" if "k \<in> fst ` set (parseScanner out)" for k
    using that unfolding parseScanner_def by (rule keys_no_EQ)
  show "putLine (EQ # v) env = AList.update [] v env" for v env
    using putLine_kv[of "[]" v env] by simp
  show "[] \<in> fst ` set (parseSplit out)" if "EQ # v \<in> set (Split out LF)" for v
  proof -
    from that have "\<exists>v. EQ \<notin> set [] \<and> [] @ EQ # v \<in> set (Split out LF)" by auto
    then show ?thesis unfolding parseSplit_def keys_fold_putLine by blast
  qed
next
  fix pre v post
  assume a: "Split out LF = pre @ (EQ # v) # post \<and> (\<forall>w. EQ # w \<notin> set post)"
  then have lines: "Split out LF = pre @ ([] @ EQ # v) # post"
    and last: "\<And>w. [] @ EQ # w \<notin> set post"
    by simp_all
  show "map_of (parseSplit out) [] = Some v"
    unfolding parseSplit_def lines
    using last by (intro map_of_fold_putLine_last) auto
  assume "snd (Scanner_Scan out) = None"
  then have "\<forall>l\<in>set (pre @ ([] @ EQ # v) # post). length l < MaxScanTokenSize"
    unfolding Scanner_Scan_Split lines by (rule scanOf_no_error)
  then have short: "\<forall>x\<in>set (pre @ [[] @ EQ # v]). length x < MaxScanTokenSize"
    by simp
  have "[] @ EQ # w \<notin> set (fst (scanOf post))" for w
    using last by (intro tokens_no_key) auto
  then show "map_of (parseScanner out) [] = Some (dropCR v)"
    unfolding parseScanner_def Scanner_Scan_Split lines scanOf_reaches[OF short]
    by (intro map_of_fold_putLine_last) auto
qed

theorem snapshot_keys_without_EQ_witness:
  "Split (''A=1=2'' @ [LF] @ ''=x'' @ [CR]) LF = [''A=1=2''] @ (EQ # ''x'' @ [CR]) # []
   \<and> snd (Scanner_Scan (''A=1=2'' @ [LF] @ ''=x'' @ [CR])) = None
   \<and> EQ \<notin> set ''A''
   \<and> map_of (parseSplit (''A=1=2'' @ [LF] @ ''=x'' @ [CR])) [] = Some (''x'' @ [CR])
   \<and> map_of (parseScanner (''A=1=2'' @ [LF] @ ''=x'' @ [CR])) [] = Some ''x''"
proof -
  let ?out = "''A=1=2'' @ [LF] @ ''=x'' @ [CR]"
  have s: "Split ?out LF = [''A=1=2''] @ (EQ # ''x'' @ [CR]) # []"
    by (simp add: Split_def Count_def LF_def CR_def EQ_def)
  have n: "snd (Scanner_Scan ?out) = None"
    unfolding Scanner_Scan_Split s by (simp add: MaxScanTokenSize_def)
  have h: "Split ?out LF = [''A=1=2''] @ (EQ # ''x'' @ [CR]) # [] \<and> (\<forall>w. EQ # w \<notin> set [])"
    using s by simp
  have p: "parseSplit ?out = [(''A'', ''1=2''), ([], ''x'' @ [CR])]"
    unfolding parseSplit_def s by (simp add: putLine_def SplitN_def EQ_def CR_def)
  have "''A'' \<in> fst ` set (parseSplit ?out)"
    unfolding p by simp
  with snapshot_keys_without_EQ[of ?out, THEN conjunct1] have a: "EQ \<notin> set ''A''"
    by blast
  note t5 = snapshot_keys_without_EQ[of ?out, THEN conjunct2, THEN conjunct2, THEN conjunct2, THEN conjunct2]
  from t5[rule_format, OF h] n
  have "map_of (parseSplit ?out) [] = Some (''x'' @ [CR])"
    and "map_of (parseScanner ?out) [] = Some (dropCR (''x'' @ [CR]))"
    by blast+
  then have "map_of (parseSplit ?out) [] = Some (''x'' @ [CR])"
    and "map_of (parseScanner ?out) [] = Some ''x''"
    by (simp_all add: dropCR_def)
  with s n a show ?thesis by (intro conjI)
qed

end
